theory Spec2Isabelle
  imports Main "HOL-Library.Code_Target_Nat"
begin

section \<open>The unsigned fixed-width number (number.hpp)\<close>

text \<open>
  The class template \<open>number<TDigit, NDigits, NDigitMax>\<close> is parameterised at compile
  time. The three template arguments are collected in a record: the width of the digit
  storage type in bits, the number of digits, and the largest value of one digit.
\<close>

record params =
  digit_bits :: nat
  num_digits :: nat
  digit_max :: nat

text \<open>\<open>static constexpr big_digit_type base = static_cast<big_digit_type>(digit_max) + 1\<close>\<close>

definition base :: "params \<Rightarrow> nat" where
  "base p = digit_max p + 1"

text \<open>
  \<open>big_digit_type\<close> is the unsigned type twice as wide as the digit type
  (\<open>uint16_t\<close>, \<open>uint32_t\<close>, \<open>uint64_t\<close> for 8, 16 and 32 bit digits).
\<close>

definition big_digit_bits :: "params \<Rightarrow> nat" where
  "big_digit_bits p = 2 * digit_bits p"

text \<open>
  The \<open>requires\<close> clause of the template: an unsigned digit type, at least one digit and
  a positive digit maximum (which, being a \<open>TDigit\<close>, fits the digit type).
\<close>

definition params_ok :: "params \<Rightarrow> bool" where
  "params_ok p \<longleftrightarrow> 0 < num_digits p \<and> 0 < digit_max p \<and> digit_max p < 2 ^ digit_bits p"

text \<open>
  \<open>digits_\<close> is a \<open>std::array<digit_type, num_digits>\<close>; index zero is the most
  significant digit. The array is a list of naturals in the same order.
\<close>

type_synonym number = "nat list"

definition number_ok :: "params \<Rightarrow> number \<Rightarrow> bool" where
  "number_ok p x \<longleftrightarrow> length x = num_digits p \<and> list_all (\<lambda>d. d \<le> digit_max p) x"

text \<open>The default constructor: \<open>digits_.fill(0U)\<close>.\<close>

definition number_zero :: "params \<Rightarrow> number" where
  "number_zero p = replicate (num_digits p) 0"

text \<open>\<open>digit(power)\<close>: \<open>power >= num_digits ? 0 : digits_[num_digits - 1 - power]\<close>.\<close>

definition digit :: "params \<Rightarrow> number \<Rightarrow> nat \<Rightarrow> nat" where
  "digit p x pw = (if pw \<ge> num_digits p then 0 else x ! (num_digits p - 1 - pw))"

text \<open>
  \<open>set_digit(unsigned power, digit_type value)\<close>: the argument is converted to the digit
  type at the call (reduction modulo \<open>2 ^ digit_bits\<close>), then stored modulo the base when
  \<open>power < num_digits\<close>; otherwise nothing happens.
\<close>

definition to_digit :: "params \<Rightarrow> nat \<Rightarrow> nat" where
  "to_digit p v = v mod 2 ^ digit_bits p"

definition set_digit :: "params \<Rightarrow> number \<Rightarrow> nat \<Rightarrow> nat \<Rightarrow> number" where
  "set_digit p x pw v =
     (if pw < num_digits p then x[num_digits p - 1 - pw := to_digit p v mod base p] else x)"

text \<open>
  \<open>unsigned\<close> is taken as a 32-bit type: an expression computed in \<open>unsigned\<close> wraps
  modulo \<open>2 ^ 32\<close>. Where such an expression is the argument of \<open>digit\<close> and would be
  negative, it wraps to an index beyond every width, for which \<open>digit\<close> returns zero.
\<close>

definition to_unsigned :: "nat \<Rightarrow> nat" where
  "to_unsigned v = v mod 2 ^ 32"

definition digit_at :: "params \<Rightarrow> number \<Rightarrow> int \<Rightarrow> nat" where
  "digit_at p x i = (if i < 0 then 0 else digit p x (nat i))"

text \<open>
  \<open>most_significant_digit()\<close>: start from \<open>num_digits\<close> and walk from the most
  significant end while the digit is zero, decrementing the count.
\<close>

fun msd_loop :: "nat list \<Rightarrow> nat \<Rightarrow> nat" where
  "msd_loop [] n = n"
| "msd_loop (d # ds) n = (if d = 0 then msd_loop ds (n - 1) else n)"

definition most_significant_digit :: "params \<Rightarrow> number \<Rightarrow> nat" where
  "most_significant_digit p x = msd_loop x (num_digits p)"

text \<open>
  Assignment from a native unsigned integer (\<open>operator=(T value)\<close>, used by the
  converting constructor): walking from the least significant digit, store
  \<open>value % base\<close> and divide while the value is not zero and digits remain, then fill the
  remaining digits with zero. The loop produces the digits least significant first.
\<close>

fun assign_loop :: "nat \<Rightarrow> nat \<Rightarrow> nat \<Rightarrow> nat list" where
  "assign_loop B 0 v = []"
| "assign_loop B (Suc n) v =
     (if v \<noteq> 0 then (v mod B) # assign_loop B n (v div B) else replicate (Suc n) 0)"

definition number_of :: "params \<Rightarrow> nat \<Rightarrow> number" where
  "number_of p v = rev (assign_loop (base p) (num_digits p) v)"

text \<open>
  Conversion to a native unsigned integer type \<open>T\<close> of \<open>w\<close> bits (\<open>operator T\<close>).
  \<open>value\<close> and \<open>power\<close> are of type \<open>T\<close> and wrap modulo \<open>2 ^ w\<close>;
  \<open>power_previous\<close> is a \<open>big_digit_type\<close>. The loop leaves as soon as the new power is
  smaller than the previous one. The initial \<open>power = 1\<close> is written as a value of the
  \<open>w\<close>-bit type.
\<close>

fun convert_loop :: "nat \<Rightarrow> nat \<Rightarrow> nat \<Rightarrow> nat list \<Rightarrow> nat \<Rightarrow> nat \<Rightarrow> nat" where
  "convert_loop w bw B [] val pw = val"
| "convert_loop w bw B (d # ds) val pw =
     (let power_previous = pw mod 2 ^ bw;
          val' = (val + pw * d) mod 2 ^ w;
          pw' = (pw * B) mod 2 ^ w
      in if pw' < power_previous then val' else convert_loop w bw B ds val' pw')"

definition to_native :: "nat \<Rightarrow> params \<Rightarrow> number \<Rightarrow> nat" where
  "to_native w p x = convert_loop w (big_digit_bits p) (base p) (rev x) 0 (1 mod 2 ^ w)"

text \<open>
  The defaulted \<open>operator<=>\<close> compares the digit arrays lexicographically, most
  significant digit first. Both operands always have the same length; the last equation
  only completes the patterns.
\<close>

datatype strong_ordering = Less | Equal | Greater

fun number_cmp :: "number \<Rightarrow> number \<Rightarrow> strong_ordering" where
  "number_cmp (a # as) (b # bs) =
     (if a < b then Less else if b < a then Greater else number_cmp as bs)"
| "number_cmp _ _ = Equal"

text \<open>The represented value: the digits read in the base, most significant first.\<close>

definition value_of :: "params \<Rightarrow> number \<Rightarrow> nat" where
  "value_of p x = foldl (\<lambda>acc d. acc * base p + d) 0 x"

subsection \<open>Addition and subtraction\<close>

text \<open>
  \<open>operator+\<close> walks both operands from the least significant digit with a carry;
  the carry out of the last digit is dropped.
\<close>

fun add_loop :: "nat \<Rightarrow> nat list \<Rightarrow> nat list \<Rightarrow> nat \<Rightarrow> nat list" where
  "add_loop B (a # as) (b # bs) carry =
     (let digit_result = a + b + carry
      in (digit_result mod B) # add_loop B as bs (if digit_result \<ge> B then 1 else 0))"
| "add_loop B _ _ carry = []"

definition number_add :: "params \<Rightarrow> number \<Rightarrow> number \<Rightarrow> number" where
  "number_add p x y = rev (add_loop (base p) (rev x) (rev y) 0)"

text \<open>
  \<open>operator-\<close>: \<open>digit_result = (base + *op1) - (borrow + *op2)\<close>, borrow when below
  base. \<open>borrow\<close> is an \<open>unsigned\<close> and \<open>*op2\<close> a digit of at most 32 bits, so their sum
  is computed in \<open>unsigned\<close>, where operator+ has cast its first operand to
  \<open>big_digit_type\<close>. With 32-bit digits the sum of a borrow and the digit \<open>0xFFFFFFFF\<close>
  wraps to zero. The wrapped sum is at most the sum, so for digits within the digit
  maximum the difference does not go below zero.
\<close>

fun sub_loop :: "nat \<Rightarrow> nat list \<Rightarrow> nat list \<Rightarrow> nat \<Rightarrow> nat list" where
  "sub_loop B (a # as) (b # bs) borrow =
     (let digit_result = (B + a) - to_unsigned (borrow + b)
      in (digit_result mod B) # sub_loop B as bs (if digit_result < B then 1 else 0))"
| "sub_loop B _ _ borrow = []"

definition number_sub :: "params \<Rightarrow> number \<Rightarrow> number \<Rightarrow> number" where
  "number_sub p x y = rev (sub_loop (base p) (rev x) (rev y) 0)"

subsection \<open>Multiplication\<close>

text \<open>
  \<open>operator*\<close>: schoolbook multiplication over \<open>digit\<close> and \<open>set_digit\<close>. The inner
  loop body computes \<open>t = digit(i) * rhs.digit(j) + w.digit(i + j) + k\<close>, keeps
  \<open>k = t / base\<close> (a \<open>digit_type\<close>) and stores \<open>t % base\<close>; after the inner loop the
  carry is stored at \<open>j + m\<close>. Writes beyond the width are dropped by \<open>set_digit\<close>.
\<close>

definition mul_step :: "params \<Rightarrow> number \<Rightarrow> number \<Rightarrow> nat \<Rightarrow> number \<times> nat \<Rightarrow> nat \<Rightarrow> number \<times> nat" where
  "mul_step p x y j wk i =
     (let t = digit p x i * digit p y j + digit p (fst wk) (i + j) + snd wk
      in (set_digit p (fst wk) (i + j) (t mod base p), to_digit p (t div base p)))"

definition mul_row :: "params \<Rightarrow> number \<Rightarrow> number \<Rightarrow> nat \<Rightarrow> number \<Rightarrow> nat \<Rightarrow> number" where
  "mul_row p x y m w j =
     (let wk = foldl (mul_step p x y j) (w, 0) [0..<m]
      in set_digit p (fst wk) (j + m) (snd wk))"

definition number_mul :: "params \<Rightarrow> number \<Rightarrow> number \<Rightarrow> number" where
  "number_mul p x y =
     (let n = most_significant_digit p y;
          m = most_significant_digit p x
      in foldl (mul_row p x y m) (number_zero p) [0..<n])"

subsection \<open>Division and modulus\<close>

text \<open>
  \<open>using big_number = number<digit_type, num_digits + 1, digit_max>\<close> and the
  constructor from a number with fewer digits, which copies \<open>value.digit(i)\<close> into
  every digit \<open>i\<close> of the wider number.
\<close>

definition big :: "params \<Rightarrow> params" where
  "big p = p\<lparr>num_digits := num_digits p + 1\<rparr>"

definition widen :: "params \<Rightarrow> params \<Rightarrow> number \<Rightarrow> number" where
  "widen bp p x = foldl (\<lambda>r i. set_digit bp r i (digit p x i)) (number_zero bp) [0..<num_digits bp]"

text \<open>
  The first correction loop of the quotient digit:
  \<open>while (qh >= base || qh * den.digit(n - 2) > base * rh + num.digit(j + n - 2))\<close>
  \<open>{ --qh; rh += den.digit(n - 1); if (rh >= base) break; }\<close>.
  Only \<open>qh\<close> is read after the loop. The arguments are the digit maximum, the two
  leading digits of the denominator and the third digit of the numerator window.
  The products and sums of the condition are computed on naturals.
\<close>

function qh_correct :: "nat \<Rightarrow> nat \<Rightarrow> nat \<Rightarrow> nat \<Rightarrow> nat \<Rightarrow> nat \<Rightarrow> nat" where
  "qh_correct M d1 d2 u2 qh rh =
     (if qh \<ge> M + 1 \<or> qh * d2 > (M + 1) * rh + u2
      then (if rh + d1 \<ge> M + 1 then qh - 1 else qh_correct M d1 d2 u2 (qh - 1) (rh + d1))
      else qh)"
  by pat_completeness auto
termination
proof (relation "measure (\<lambda>(M, d1, d2, u2, qh, rh). qh)", goal_cases)
  case 1
  show ?case by simp
next
  case (2 M d1 d2 u2 qh rh)
  then have "qh \<noteq> 0" by (cases qh) auto
  then show ?case by simp
qed

text \<open>
  The second correction loop: \<open>while (sig < trial) { --qh; trial = big_number(qh) * den; }\<close>.
  It ends at the latest when \<open>qh\<close> is zero, because the trial product is then zero and
  no array is below the zero array.
\<close>

function trial_loop :: "params \<Rightarrow> number \<Rightarrow> number \<Rightarrow> nat \<Rightarrow> nat" where
  "trial_loop bp sig den qh =
     (if number_cmp sig (number_mul bp (number_of bp qh) den) = Less
      then trial_loop bp sig den (qh - 1) else qh)"
  by pat_completeness auto

lemma msd_loop_replicate_zero: "msd_loop (replicate k 0) n = n - k"
  by (induction k arbitrary: n) auto

lemma assign_loop_zero: "assign_loop B n 0 = replicate n 0"
  by (cases n) auto

lemma number_of_zero: "number_of p 0 = number_zero p"
  by (simp add: number_of_def number_zero_def assign_loop_zero)

lemma set_digit_zero_zero: "set_digit p (number_zero p) i 0 = number_zero p"
  by (simp add: set_digit_def number_zero_def to_digit_def list_update_same_conv)

lemma number_mul_zero_left: "number_mul p (number_zero p) y = number_zero p"
proof -
  have row: "mul_row p (number_zero p) y 0 (number_zero p) j = number_zero p" for j
    by (simp add: mul_row_def set_digit_zero_zero)
  have "foldl (mul_row p (number_zero p) y 0) (number_zero p) js = number_zero p" for js
    by (induction js) (simp_all add: row)
  moreover have "most_significant_digit p (number_zero p) = 0"
    by (simp add: most_significant_digit_def number_zero_def msd_loop_replicate_zero)
  ultimately show ?thesis
    by (simp add: number_mul_def Let_def)
qed

lemma number_cmp_zero_not_Less: "number_cmp x (replicate k 0) \<noteq> Less"
proof (induction x arbitrary: k)
  case Nil
  show ?case by simp
next
  case (Cons a x)
  show ?case
  proof (cases k)
    case 0
    then show ?thesis by simp
  next
    case (Suc k')
    with Cons show ?thesis by simp
  qed
qed

termination trial_loop
proof (relation "measure (\<lambda>(bp, sig, den, qh). qh)")
  show "wf (measure (\<lambda>(bp, sig, den, qh). qh))" by simp
next
  fix bp :: params and sig den :: number and qh :: nat
  assume less: "number_cmp sig (number_mul bp (number_of bp qh) den) = Less"
  have "qh \<noteq> 0"
  proof
    assume "qh = 0"
    with less have "number_cmp sig (number_zero bp) = Less"
      by (simp add: number_of_zero number_mul_zero_left)
    then show False
      by (simp add: number_zero_def number_cmp_zero_not_Less)
  qed
  then show "((bp, sig, den, qh - 1), (bp, sig, den, qh)) \<in> measure (\<lambda>(bp, sig, den, qh). qh)"
    by simp
qed

text \<open>
  A division of native integers by zero has no defined result; it is the one failure of
  the arithmetic, kept as a value.
\<close>

datatype error = Division_by_zero

text \<open>
  One pass of the loop over the quotient digits, for digit \<open>j\<close>; the state is the
  working numerator and the quotient. The indices \<open>n - 1\<close>, \<open>n - 2\<close>, \<open>j + n - 1\<close> and
  \<open>j + n - 2\<close> are computed in \<open>unsigned\<close>. The guess of the quotient digit divides by
  \<open>den.digit(n - 1)\<close>.
\<close>

definition div_step ::
  "params \<Rightarrow> number \<Rightarrow> nat \<Rightarrow> number \<times> number \<Rightarrow> nat \<Rightarrow> error + number \<times> number" where
  "div_step p den n st j =
     (let bp = big p;
          num = fst st;
          top = digit bp num (j + n) * base p + digit_at bp num (int j + int n - 1);
          d1 = digit_at bp den (int n - 1)
      in if d1 = 0 then Inl Division_by_zero
         else
           (let qh0 = top div d1;
                rh0 = top mod d1;
                qh1 = qh_correct (digit_max p) d1 (digit_at bp den (int n - 2))
                        (digit_at bp num (int j + int n - 2)) qh0 rh0;
                sig = foldl (\<lambda>s i. set_digit bp s (i - j) (digit bp num i)) (number_zero bp)
                        (rev [j..<j + n + 1]);
                qh = trial_loop bp sig den qh1;
                trial = number_mul bp (number_of bp qh) den;
                quotient = set_digit p (snd st) j qh;
                diff = number_sub bp sig trial
            in Inr (foldl (\<lambda>nm i. set_digit bp nm i (digit bp diff (i - j))) num
                      (rev [j..<j + n + 1]),
                    quotient)))"

fun div_loop ::
  "params \<Rightarrow> number \<Rightarrow> nat \<Rightarrow> number \<times> number \<Rightarrow> nat list \<Rightarrow> error + number \<times> number" where
  "div_loop p den n st [] = Inr st"
| "div_loop p den n st (j # js) =
     (case div_step p den n st j of
        Inl e \<Rightarrow> Inl e
      | Inr st' \<Rightarrow> div_loop p den n st' js)"

text \<open>
  \<open>operator/\<close>: the special cases, the normalisation, then the digit loop for
  \<open>j = m, ..., 0\<close>. The divisor of the normalisation factor,
  \<open>rhs.digit(rhs.most_significant_digit() - 1U) + 1U\<close>, is computed in \<open>unsigned\<close>; with
  32-bit digits it is zero for the leading digit \<open>0xFFFFFFFF\<close>. \<open>m\<close> is an \<open>unsigned\<close>
  difference that initialises the \<open>int j\<close>: were it negative, \<open>j\<close> would start below zero
  and the loop would not run.
\<close>

definition number_div :: "params \<Rightarrow> number \<Rightarrow> number \<Rightarrow> error + number" where
  "number_div p x y =
     (if x = number_of p 0 \<or> y = number_of p 0 \<or> number_cmp y x = Greater
        then Inr (number_of p 0)
      else if y = x then Inr (number_of p 1)
      else if y = number_of p 1 then Inr x
      else
        (let bp = big p;
             dv = to_unsigned (digit_at p y (int (most_significant_digit p y) - 1) + 1)
         in if dv = 0 then Inl Division_by_zero
            else
              (let norm = number_of bp (base p div dv);
                   num = number_mul bp (widen bp p x) norm;
                   den = number_mul bp (widen bp p y) norm;
                   n = most_significant_digit bp den;
                   m = most_significant_digit bp num - n;
                   js = (if most_significant_digit bp num < n then [] else rev [0..<m + 1])
               in case div_loop p den n (num, number_zero p) js of
                    Inl e \<Rightarrow> Inl e
                  | Inr st \<Rightarrow> Inr (snd st))))"

text \<open>\<open>operator%\<close>: \<open>*this - ((*this / rhs) * rhs)\<close>.\<close>

definition number_mod :: "params \<Rightarrow> number \<Rightarrow> number \<Rightarrow> error + number" where
  "number_mod p x y =
     (case number_div p x y of
        Inl e \<Rightarrow> Inl e
      | Inr q \<Rightarrow> Inr (number_sub p x (number_mul p q y)))"

subsection \<open>Exponentiation\<close>

text \<open>
  \<open>pow\<close>: the loop runs while the exponent is not zero; it tests
  \<open>exponent.digit(0) & 1\<close>, divides the exponent by \<open>number(2U)\<close> and squares \<open>b\<close>.
  The loop is a \<open>while\<close> whose exit depends on the division, so it is a partial
  function: \<open>None\<close> is a loop that does not end, \<open>Some (Inl e)\<close> a failed division.
\<close>

partial_function (option) pow_loop ::
  "params \<Rightarrow> number \<Rightarrow> number \<Rightarrow> number \<Rightarrow> (error + number) option" where
  "pow_loop p result b exponent =
     (if exponent \<noteq> number_of p 0
      then (case number_div p exponent (number_of p 2) of
              Inl e \<Rightarrow> Some (Inl e)
            | Inr q \<Rightarrow>
                pow_loop p (if odd (digit p exponent 0) then number_mul p result b else result)
                  (number_mul p b b) q)
      else Some (Inr result))"

declare pow_loop.simps [code]

definition number_pow :: "params \<Rightarrow> number \<Rightarrow> number \<Rightarrow> (error + number) option" where
  "number_pow p x exponent = pow_loop p (number_of p 1) x exponent"

subsection \<open>Text conversion\<close>

datatype string_base = binary | octal | decimal | hexadecimal

fun to_underlying :: "string_base \<Rightarrow> nat" where
  "to_underlying binary = 2"
| "to_underlying octal = 8"
| "to_underlying decimal = 10"
| "to_underlying hexadecimal = 16"

text \<open>
  \<open>to_string\<close>: while \<open>n\<close> is not zero, append the character of \<open>n % b\<close> (converted to
  \<open>unsigned\<close>, 32 bits) and divide \<open>n\<close> by \<open>b\<close>; reverse the string at the end. The
  character is \<open>'0' + string_digit\<close> up to nine and \<open>'a' + (string_digit - 10)\<close> above,
  reduced to a \<open>char\<close>. The loop is a \<open>while\<close> without a bound: \<open>None\<close> is a loop
  that does not end, \<open>Some (Inl e)\<close> a failed division.
\<close>

definition digit_char :: "nat \<Rightarrow> char" where
  "digit_char string_digit =
     (if string_digit \<le> 9 then char_of (of_char CHR ''0'' + string_digit)
      else char_of (of_char CHR ''a'' + (string_digit - 10)))"

partial_function (option) to_string_loop ::
  "params \<Rightarrow> number \<Rightarrow> number \<Rightarrow> string \<Rightarrow> (error + string) option" where
  "to_string_loop p n b s =
     (if n \<noteq> number_of p 0
      then (case number_mod p n b of
              Inl e \<Rightarrow> Some (Inl e)
            | Inr r \<Rightarrow>
                (case number_div p n b of
                   Inl e \<Rightarrow> Some (Inl e)
                 | Inr q \<Rightarrow> to_string_loop p q b (s @ [digit_char (to_native 32 p r)])))
      else Some (Inr s))"

declare to_string_loop.simps [code]

definition to_string :: "params \<Rightarrow> number \<Rightarrow> string_base \<Rightarrow> (error + string) option" where
  "to_string p x sb =
     map_option (map_sum id rev) (to_string_loop p x (number_of p (to_underlying sb)) [])"

text \<open>
  \<open>from_string\<close>: the lambda \<open>decode_char\<close> accepts \<open>0-9\<close>, \<open>a-f\<close> and \<open>A-F\<close> and
  rejects a value that is not below the base. The loop walks the input from its last
  character, adds \<open>number(value) * power\<close> to the result and multiplies \<open>power\<close> by the
  base; the first rejected character ends the parse with \<open>std::nullopt\<close>.
\<close>

definition decode_char :: "string_base \<Rightarrow> char \<Rightarrow> nat option" where
  "decode_char input_base c =
     (let n = (of_char c :: nat);
          v = (if of_char CHR ''0'' \<le> n \<and> n \<le> of_char CHR ''9''
                 then Some (n - of_char CHR ''0'')
               else if of_char CHR ''a'' \<le> n \<and> n \<le> of_char CHR ''f''
                 then Some (10 + (n - of_char CHR ''a''))
               else if of_char CHR ''A'' \<le> n \<and> n \<le> of_char CHR ''F''
                 then Some (10 + (n - of_char CHR ''A''))
               else None)
      in case v of
           Some d \<Rightarrow> if d < to_underlying input_base then Some d else None
         | None \<Rightarrow> None)"

fun from_string_loop :: "params \<Rightarrow> string_base \<Rightarrow> string \<Rightarrow> number \<Rightarrow> number \<Rightarrow> number option" where
  "from_string_loop p input_base [] result pw = Some result"
| "from_string_loop p input_base (c # cs) result pw =
     (case decode_char input_base c of
        Some v \<Rightarrow>
          from_string_loop p input_base cs
            (number_add p result (number_mul p (number_of p v) pw))
            (number_mul p pw (number_of p (to_underlying input_base)))
      | None \<Rightarrow> None)"

definition from_string :: "params \<Rightarrow> string \<Rightarrow> string_base \<Rightarrow> number option" where
  "from_string p input_string input_base =
     from_string_loop p input_base (rev input_string) (number_zero p) (number_of p 1)"

subsection \<open>The characters the text format recognises\<close>

text \<open>
  Stated from the specification, to compare with \<open>decode_char\<close>: the recognised
  characters are \<open>0-9\<close> and \<open>a-f\<close> or \<open>A-F\<close>, case-insensitively, and a character is
  accepted for a base when it is the digit character of a value strictly below the base.
\<close>

definition hex_lower :: string where
  "hex_lower = ''0123456789abcdef''"

definition hex_upper :: string where
  "hex_upper = ''0123456789ABCDEF''"

definition recognised :: "string_base \<Rightarrow> char \<Rightarrow> bool" where
  "recognised input_base c \<longleftrightarrow>
     (\<exists>d \<in> set [0..<to_underlying input_base]. c = hex_lower ! d \<or> c = hex_upper ! d)"

section \<open>The signed wrapper (integer.hpp)\<close>

text \<open>
  \<open>integer<TNumber>\<close> holds \<open>bool positive_ = true\<close> and \<open>number_type magnitude_\<close>,
  in this order.
\<close>

record integer =
  positive :: bool
  magnitude :: number

definition integer_default :: "params \<Rightarrow> integer" where
  "integer_default p = \<lparr>positive = True, magnitude = number_zero p\<rparr>"

text \<open>
  Assignment from a native integer of \<open>w\<close> bits (\<open>operator=(T value)\<close>, used by the
  converting constructor): the sign is \<open>value >= 0\<close>, the magnitude is built from the
  value, or from \<open>value * -1\<close>, cast to the unsigned type of the same width.
\<close>

definition integer_of :: "params \<Rightarrow> nat \<Rightarrow> int \<Rightarrow> integer" where
  "integer_of p w v =
     (if v \<ge> 0 then \<lparr>positive = True, magnitude = number_of p (nat (v mod 2 ^ w))\<rparr>
      else \<lparr>positive = False, magnitude = number_of p (nat ((v * - 1) mod 2 ^ w))\<rparr>)"

text \<open>Unary plus: \<open>integer(true, magnitude_)\<close>.\<close>

definition integer_plus :: "integer \<Rightarrow> integer" where
  "integer_plus a = \<lparr>positive = True, magnitude = magnitude a\<rparr>"

definition integer_add :: "params \<Rightarrow> integer \<Rightarrow> integer \<Rightarrow> integer" where
  "integer_add p a b =
     (if positive a = positive b
        then \<lparr>positive = positive a, magnitude = number_add p (magnitude a) (magnitude b)\<rparr>
      else if number_cmp (magnitude a) (magnitude b) = Less
        then \<lparr>positive = positive b, magnitude = number_sub p (magnitude b) (magnitude a)\<rparr>
      else if number_cmp (magnitude a) (magnitude b) = Greater
        then \<lparr>positive = positive a, magnitude = number_sub p (magnitude a) (magnitude b)\<rparr>
      else integer_default p)"

definition integer_neg :: "params \<Rightarrow> integer \<Rightarrow> integer" where
  "integer_neg p a =
     (if magnitude a \<noteq> number_of p 0
      then \<lparr>positive = \<not> positive a, magnitude = magnitude a\<rparr> else a)"

definition integer_sub :: "params \<Rightarrow> integer \<Rightarrow> integer \<Rightarrow> integer" where
  "integer_sub p a b = integer_add p a (integer_neg p b)"

definition integer_mul :: "params \<Rightarrow> integer \<Rightarrow> integer \<Rightarrow> integer" where
  "integer_mul p a b =
     (let result_magnitude = number_mul p (magnitude a) (magnitude b)
      in if result_magnitude = number_of p 0 then integer_default p
         else \<lparr>positive = \<not> (positive a \<noteq> positive b), magnitude = result_magnitude\<rparr>)"

definition integer_div :: "params \<Rightarrow> integer \<Rightarrow> integer \<Rightarrow> error + integer" where
  "integer_div p a b =
     (case number_div p (magnitude a) (magnitude b) of
        Inl e \<Rightarrow> Inl e
      | Inr result_magnitude \<Rightarrow>
          Inr (if result_magnitude = number_of p 0 then integer_default p
               else \<lparr>positive = \<not> (positive a \<noteq> positive b),
                      magnitude = result_magnitude\<rparr>))"

definition integer_mod :: "params \<Rightarrow> integer \<Rightarrow> integer \<Rightarrow> error + integer" where
  "integer_mod p a b =
     (case number_mod p (magnitude a) (magnitude b) of
        Inl e \<Rightarrow> Inl e
      | Inr result_magnitude \<Rightarrow>
          Inr \<lparr>positive = (if result_magnitude \<noteq> number_of p 0 then positive a else True),
               magnitude = result_magnitude\<rparr>)"

text \<open>
  The defaulted \<open>operator<=>\<close> of \<open>integer\<close> compares the members in their declaration
  order: first \<open>positive_\<close> (\<open>false\<close> is below \<open>true\<close>), then \<open>magnitude_\<close> with the
  comparison of \<open>number\<close>.
\<close>

definition integer_cmp :: "integer \<Rightarrow> integer \<Rightarrow> strong_ordering" where
  "integer_cmp a b =
     (if positive a \<noteq> positive b then (if positive b then Less else Greater)
      else number_cmp (magnitude a) (magnitude b))"

text \<open>
  The invariant of the signed values: a zero magnitude carries the positive flag.
\<close>

definition canonical_zero :: "params \<Rightarrow> integer \<Rightarrow> bool" where
  "canonical_zero p a \<longleftrightarrow> magnitude a \<noteq> number_of p 0 \<or> positive a"

section \<open>Definitions used by the statements and proofs\<close>

subsection \<open>Digit lists read least significant digit first\<close>

text \<open>
  The loops of the class walk the arrays with reverse iterators. \<open>le_val\<close> is the value
  of a digit list whose head is the least significant digit.
\<close>

fun le_val :: "nat \<Rightarrow> nat list \<Rightarrow> nat" where
  "le_val B [] = 0"
| "le_val B (d # ds) = d + B * le_val B ds"

subsection \<open>Subtrahends whose digits cannot wrap the borrow\<close>

text \<open>
  The sum of a borrow and a digit stays below \<open>2 ^ 32\<close> for every digit of the array.
  This is so for every valid array when the base is below \<open>2 ^ 32\<close>, and for the zero
  array in every base.
\<close>

definition borrow_safe :: "number \<Rightarrow> bool" where
  "borrow_safe y \<longleftrightarrow> list_all (\<lambda>d. Suc d < 2 ^ 32) y"

subsection \<open>Instances used for concrete evaluations\<close>

text \<open>\<open>number<std::uint8_t, 1>\<close>: one digit in base 256.\<close>

definition p8 :: params where
  "p8 = \<lparr>digit_bits = 8, num_digits = 1, digit_max = 255\<rparr>"

text \<open>\<open>number<std::uint8_t, 3, 9>\<close>: three decimal digits.\<close>

definition p_dec3 :: params where
  "p_dec3 = \<lparr>digit_bits = 8, num_digits = 3, digit_max = 9\<rparr>"

text \<open>\<open>number<std::uint8_t, 2, 2>\<close> and \<open>number<std::uint8_t, 1, 2>\<close>: two digits and one digit in base 3.\<close>

definition p_tern2 :: params where
  "p_tern2 = \<lparr>digit_bits = 8, num_digits = 2, digit_max = 2\<rparr>"

definition p_tern1 :: params where
  "p_tern1 = \<lparr>digit_bits = 8, num_digits = 1, digit_max = 2\<rparr>"



text \<open>\<open>number<std::uint32_t, 3>\<close>: three digits in base \<open>2 ^ 32\<close>.\<close>

definition p32 :: params where
  "p32 = \<lparr>digit_bits = 32, num_digits = 3, digit_max = 4294967295\<rparr>"

section \<open>Auxiliary facts\<close>

subsection \<open>The value of a digit list\<close>

lemma value_of_le_val: "value_of p x = le_val (base p) (rev x)"
  unfolding value_of_def by (induction x rule: rev_induct) simp_all

lemma le_val_replicate_zero: "le_val B (replicate n 0) = 0"
  by (induction n) simp_all

lemma le_val_append: "le_val B (xs @ ys) = le_val B xs + B ^ length xs * le_val B ys"
  by (induction xs) (simp_all add: algebra_simps)

lemma le_val_bound: "list_all (\<lambda>d. d < B) ds \<Longrightarrow> le_val B ds < B ^ length ds"
proof (induction ds)
  case Nil
  show ?case by simp
next
  case (Cons d ds)
  then have d: "d < B" and v: "le_val B ds < B ^ length ds" by simp_all
  have "d + B * le_val B ds < B + B * le_val B ds" using d by simp
  also have "\<dots> = B * Suc (le_val B ds)" by simp
  also have "\<dots> \<le> B * B ^ length ds" using v by (intro mult_le_mono2) simp
  finally show ?case by simp
qed

lemma mod_step_nat: "r < B \<Longrightarrow> (r + B * q) mod (B * K) = r + B * (q mod K)" for r :: nat
  by (simp add: mod_mult2_eq)

lemma mod_step_int:
  "0 \<le> r \<Longrightarrow> r < B \<Longrightarrow> 0 \<le> K \<Longrightarrow> (r + B * q) mod (B * K) = r + B * (q mod K)" for r :: int
  by (simp add: zmod_zmult2_eq)

lemma le_val_inject:
  "length as = length bs \<Longrightarrow> list_all (\<lambda>d. d < B) as \<Longrightarrow> list_all (\<lambda>d. d < B) bs \<Longrightarrow>
   le_val B as = le_val B bs \<Longrightarrow> as = bs"
proof (induction as bs rule: list_induct2)
  case Nil
  show ?case by simp
next
  case (Cons a as b bs)
  then have a: "a < B" and b: "b < B" and eq: "a + B * le_val B as = b + B * le_val B bs"
    by simp_all
  from eq have "(a + B * le_val B as) mod B = (b + B * le_val B bs) mod B" by simp
  with a b have ab: "a = b" by simp
  from eq have "(a + B * le_val B as) div B = (b + B * le_val B bs) div B" by simp
  with a b have "le_val B as = le_val B bs" by simp
  with Cons ab show ?case by simp
qed

lemma assign_loop_length: "length (assign_loop B n v) = n"
  by (induction n arbitrary: v) simp_all

lemma assign_loop_digits: "0 < B \<Longrightarrow> list_all (\<lambda>d. d < B) (assign_loop B n v)"
  by (induction n arbitrary: v) (auto simp: list_all_iff)

lemma assign_loop_le_val: "0 < B \<Longrightarrow> le_val B (assign_loop B n v) = v mod B ^ n"
proof (induction n arbitrary: v)
  case 0
  show ?case by simp
next
  case (Suc n)
  show ?case
  proof (cases "v = 0")
    case True
    then show ?thesis using le_val_replicate_zero [of B "Suc n"] by simp
  next
    case False
    then show ?thesis using Suc by (simp add: mod_mult2_eq)
  qed
qed

lemma add_loop_length: "length (add_loop B as bs c) = min (length as) (length bs)"
  by (induction B as bs c rule: add_loop.induct) (simp_all add: Let_def)

lemma add_loop_digits: "0 < B \<Longrightarrow> list_all (\<lambda>d. d < B) (add_loop B as bs c)"
  by (induction B as bs c rule: add_loop.induct) (simp_all add: Let_def)

lemma add_loop_le_val:
  "length as = length bs \<Longrightarrow> list_all (\<lambda>d. d < B) as \<Longrightarrow> list_all (\<lambda>d. d < B) bs \<Longrightarrow> c \<le> 1 \<Longrightarrow>
   le_val B (add_loop B as bs c) = (le_val B as + le_val B bs + c) mod B ^ length as"
proof (induction as bs arbitrary: c rule: list_induct2)
  case Nil
  show ?case by simp
next
  case (Cons a as b bs)
  then have a: "a < B" and b: "b < B" by simp_all
  define dr where "dr = a + b + c"
  define c' :: nat where "c' = (if dr \<ge> B then 1 else 0)"
  have c': "c' \<le> 1" by (simp add: c'_def)
  have drdiv: "dr div B = c'"
  proof (cases "dr \<ge> B")
    case True
    moreover have "dr < 2 * B" using a b Cons.prems(3) by (simp add: dr_def)
    ultimately have "dr div B = 1"
      using a by (simp add: le_div_geq)
    then show ?thesis using True by (simp add: c'_def)
  next
    case False
    then show ?thesis by (simp add: c'_def)
  qed
  have split: "dr = dr mod B + B * c'" using drdiv by (metis mod_mult_div_eq)
  have ih: "le_val B (add_loop B as bs c') = (le_val B as + le_val B bs + c') mod B ^ length as"
    using Cons c' by simp
  have "le_val B (add_loop B (a # as) (b # bs) c) = dr mod B + B * le_val B (add_loop B as bs c')"
    by (simp add: Let_def dr_def c'_def)
  also have "\<dots> = dr mod B + B * ((le_val B as + le_val B bs + c') mod B ^ length as)"
    by (simp add: ih)
  also have "\<dots> = (dr mod B + B * (le_val B as + le_val B bs + c')) mod (B * B ^ length as)"
    using a by (subst mod_step_nat) simp_all
  also have "dr mod B + B * (le_val B as + le_val B bs + c') = dr + B * (le_val B as + le_val B bs)"
    using split by (simp add: algebra_simps)
  finally show ?case by (simp add: dr_def algebra_simps)
qed

lemma sub_loop_length: "length (sub_loop B as bs c) = min (length as) (length bs)"
  by (induction B as bs c rule: sub_loop.induct) (simp_all add: Let_def)

lemma sub_loop_digits: "0 < B \<Longrightarrow> list_all (\<lambda>d. d < B) (sub_loop B as bs c)"
  by (induction B as bs c rule: sub_loop.induct) (simp_all add: Let_def)

lemma sub_loop_le_val:
  "length as = length bs \<Longrightarrow> list_all (\<lambda>d. d < B) as \<Longrightarrow> list_all (\<lambda>d. d < B) bs \<Longrightarrow>
   list_all (\<lambda>d. Suc d < 2 ^ 32) bs \<Longrightarrow> c \<le> 1 \<Longrightarrow>
   int (le_val B (sub_loop B as bs c)) =
     (int (le_val B as) - int (le_val B bs) - int c) mod int (B ^ length as)"
proof (induction as bs arbitrary: c rule: list_induct2)
  case Nil
  show ?case by simp
next
  case (Cons a as b bs)
  then have a: "a < B" and b: "b < B" and b32: "Suc b < 2 ^ 32" by simp_all
  have nowrap: "to_unsigned (c + b) = c + b"
    using b32 Cons.prems(4) by (simp add: to_unsigned_def)
  define dr where "dr = (B + a) - (c + b)"
  define c' :: nat where "c' = (if dr < B then 1 else 0)"
  have c': "c' \<le> 1" by (simp add: c'_def)
  have dr_int: "int dr = int B + int a - int c - int b"
    using b Cons.prems(4) by (simp add: dr_def)
  have dr_lt: "dr < 2 * B" using a by (simp add: dr_def)
  have drdiv: "dr div B = 1 - c'"
  proof (cases "dr < B")
    case True
    then show ?thesis by (simp add: c'_def)
  next
    case False
    then have "dr div B = 1" using dr_lt a by (simp add: le_div_geq)
    then show ?thesis using False by (simp add: c'_def)
  qed
  have "dr = dr mod B + B * (1 - c')" using drdiv by (metis mod_mult_div_eq)
  then have "int dr = int (dr mod B) + int B * (1 - int c')"
    using c' by (metis int_ops(2) int_ops(6) of_nat_add of_nat_mult of_nat_1 of_nat_diff)
  then have split: "int a - int b - int c = int (dr mod B) - int B * int c'"
    using dr_int by (simp add: algebra_simps)
  have ih: "int (le_val B (sub_loop B as bs c')) =
      (int (le_val B as) - int (le_val B bs) - int c') mod int (B ^ length as)"
    using Cons c' by simp
  have "int (le_val B (sub_loop B (a # as) (b # bs) c)) =
      int (dr mod B) + int B * int (le_val B (sub_loop B as bs c'))"
    by (simp add: Let_def dr_def c'_def nowrap)
  also have "\<dots> = int (dr mod B) +
      int B * ((int (le_val B as) - int (le_val B bs) - int c') mod int (B ^ length as))"
    by (simp add: ih)
  also have "\<dots> = (int (dr mod B) + int B * (int (le_val B as) - int (le_val B bs) - int c'))
      mod (int B * int (B ^ length as))"
    using a by (subst mod_step_int) simp_all
  also have "int (dr mod B) + int B * (int (le_val B as) - int (le_val B bs) - int c') =
      int (le_val B (a # as)) - int (le_val B (b # bs)) - int c"
    using split by (simp add: algebra_simps)
  finally show ?case by simp
qed

subsection \<open>Validity and value of the results of the operations\<close>

lemma base_pos: "0 < base p"
  by (simp add: base_def)

lemma number_ok_rev:
  "number_ok p x \<longleftrightarrow> length (rev x) = num_digits p \<and> list_all (\<lambda>d. d < base p) (rev x)"
  by (simp add: number_ok_def base_def less_Suc_eq_le)

lemma number_ok_of_rev:
  "length ds = num_digits p \<Longrightarrow> list_all (\<lambda>d. d < base p) ds \<Longrightarrow> number_ok p (rev ds)"
  by (simp add: number_ok_def base_def less_Suc_eq_le)

lemma value_of_bound: "number_ok p x \<Longrightarrow> value_of p x < base p ^ num_digits p"
  using le_val_bound [of "base p" "rev x"] by (simp add: value_of_le_val number_ok_rev)

lemma value_of_inject:
  "number_ok p x \<Longrightarrow> number_ok p y \<Longrightarrow> value_of p x = value_of p y \<Longrightarrow> x = y"
  using le_val_inject [of "rev x" "rev y" "base p"]
  by (simp add: value_of_le_val number_ok_rev)

lemma number_of_ok: "number_ok p (number_of p v)"
  unfolding number_of_def
  by (rule number_ok_of_rev) (simp_all add: assign_loop_length assign_loop_digits base_pos)

lemma value_of_number_of: "value_of p (number_of p v) = v mod base p ^ num_digits p"
  by (simp add: value_of_le_val number_of_def assign_loop_le_val base_pos)

lemma number_add_ok: "number_ok p x \<Longrightarrow> number_ok p y \<Longrightarrow> number_ok p (number_add p x y)"
  unfolding number_add_def
  by (rule number_ok_of_rev) (simp_all add: add_loop_length add_loop_digits base_pos number_ok_def)

lemma value_of_number_add:
  "number_ok p x \<Longrightarrow> number_ok p y \<Longrightarrow>
   value_of p (number_add p x y) = (value_of p x + value_of p y) mod base p ^ num_digits p"
  using add_loop_le_val [of "rev x" "rev y" "base p" 0]
  by (simp add: value_of_le_val number_add_def number_ok_rev)

lemma number_sub_ok: "number_ok p x \<Longrightarrow> number_ok p y \<Longrightarrow> number_ok p (number_sub p x y)"
  unfolding number_sub_def
  by (rule number_ok_of_rev) (simp_all add: sub_loop_length sub_loop_digits base_pos number_ok_def)

lemma borrow_safe_number_zero: "borrow_safe (number_zero p)"
  by (simp add: borrow_safe_def number_zero_def list_all_iff)

lemma borrow_safe_small_base: "number_ok p y \<Longrightarrow> base p < 2 ^ 32 \<Longrightarrow> borrow_safe y"
  by (auto simp: borrow_safe_def number_ok_def base_def list_all_iff)

lemma value_of_number_sub:
  "number_ok p x \<Longrightarrow> number_ok p y \<Longrightarrow> borrow_safe y \<Longrightarrow>
   int (value_of p (number_sub p x y)) =
     (int (value_of p x) - int (value_of p y)) mod int (base p ^ num_digits p)"
  using sub_loop_le_val [of "rev x" "rev y" "base p" 0]
  by (simp add: value_of_le_val number_sub_def number_ok_rev borrow_safe_def)

lemma number_add_sub_cancel:
  assumes x: "number_ok p x" and a: "number_ok p a" and safe: "borrow_safe x"
  shows "number_add p x (number_sub p a x) = a"
proof (rule value_of_inject)
  let ?K = "base p ^ num_digits p"
  have s: "number_ok p (number_sub p a x)" using a x by (rule number_sub_ok)
  show "number_ok p (number_add p x (number_sub p a x))" using x s by (rule number_add_ok)
  show "number_ok p a" by (rule a)
  have "int (value_of p (number_add p x (number_sub p a x))) =
        (int (value_of p x) + int (value_of p (number_sub p a x))) mod int ?K"
    using value_of_number_add [OF x s] by (metis of_nat_add of_nat_mod)
  also have "\<dots> = (int (value_of p x) + (int (value_of p a) - int (value_of p x)) mod int ?K) mod int ?K"
    by (simp only: value_of_number_sub [OF a x safe])
  also have "\<dots> = (int (value_of p x) + (int (value_of p a) - int (value_of p x))) mod int ?K"
    by (simp only: mod_add_right_eq)
  also have "\<dots> = int (value_of p a)"
    using value_of_bound [OF a] by simp
  finally show "value_of p (number_add p x (number_sub p a x)) = value_of p a" by simp
qed

lemma number_zero_ok: "number_ok p (number_zero p)"
  by (simp add: number_ok_def number_zero_def list_all_iff)

lemma value_of_number_zero: "value_of p (number_zero p) = 0"
  by (simp add: value_of_le_val number_zero_def le_val_replicate_zero)

lemma to_digit_mod_base_le: "to_digit p v mod base p \<le> digit_max p"
  using pos_mod_bound [of "int (base p)"] by (simp add: base_def less_Suc_eq_le [symmetric])

lemma set_digit_ok: "number_ok p w \<Longrightarrow> number_ok p (set_digit p w i v)"
  by (auto simp: number_ok_def set_digit_def list_all_length nth_list_update to_digit_mod_base_le)

lemma mul_step_ok: "number_ok p (fst wk) \<Longrightarrow> number_ok p (fst (mul_step p x y j wk i))"
  by (simp add: mul_step_def Let_def set_digit_ok)

lemma mul_steps_ok: "number_ok p (fst wk) \<Longrightarrow> number_ok p (fst (foldl (mul_step p x y j) wk is))"
  by (induction "is" arbitrary: wk) (simp_all add: mul_step_ok)

lemma mul_row_ok: "number_ok p w \<Longrightarrow> number_ok p (mul_row p x y m w j)"
  by (simp add: mul_row_def Let_def set_digit_ok mul_steps_ok)

lemma mul_rows_ok: "number_ok p w \<Longrightarrow> number_ok p (foldl (mul_row p x y m) w js)"
  by (induction js arbitrary: w) (simp_all add: mul_row_ok)

lemma number_mul_ok: "number_ok p (number_mul p x y)"
  by (simp add: number_mul_def Let_def mul_rows_ok number_zero_ok)

lemma number_sub_zero: "number_ok p a \<Longrightarrow> number_sub p a (number_zero p) = a"
proof (rule value_of_inject)
  assume a: "number_ok p a"
  show "number_ok p (number_sub p a (number_zero p))"
    using a number_zero_ok by (rule number_sub_ok)
  show "number_ok p a" by (rule a)
  have "int (value_of p (number_sub p a (number_zero p))) = int (value_of p a)"
    using value_of_number_sub [OF a number_zero_ok borrow_safe_number_zero] value_of_bound [OF a]
    by (simp add: value_of_number_zero)
  then show "value_of p (number_sub p a (number_zero p)) = value_of p a" by simp
qed

subsection \<open>Decoding of characters\<close>

lemma hex_lower_code:
  "\<forall>d \<in> set [0..<16]. (of_char (hex_lower ! d) :: nat) = (if d \<le> 9 then 48 + d else 97 + (d - 10))"
  by code_simp

lemma hex_upper_code:
  "\<forall>d \<in> set [0..<16]. (of_char (hex_upper ! d) :: nat) = (if d \<le> 9 then 48 + d else 65 + (d - 10))"
  by code_simp

lemma to_underlying_le: "to_underlying ib \<le> 16"
  by (cases ib) simp_all

lemma char_eq_iff_code: "c = c' \<longleftrightarrow> (of_char c :: nat) = of_char c'"
  by simp

lemma recognised_iff:
  "recognised ib c \<longleftrightarrow>
     (\<exists>d < to_underlying ib.
        (of_char c :: nat) = (if d \<le> 9 then 48 + d else 97 + (d - 10)) \<or>
        (of_char c :: nat) = (if d \<le> 9 then 48 + d else 65 + (d - 10)))"
proof -
  have "d < to_underlying ib \<Longrightarrow>
      (c = hex_lower ! d \<or> c = hex_upper ! d) \<longleftrightarrow>
      ((of_char c :: nat) = (if d \<le> 9 then 48 + d else 97 + (d - 10)) \<or>
       (of_char c :: nat) = (if d \<le> 9 then 48 + d else 65 + (d - 10)))" for d
  proof -
    assume "d < to_underlying ib"
    then have d: "d \<in> set [0..<16]" using to_underlying_le [of ib] by simp
    show ?thesis
      using bspec [OF hex_lower_code d] bspec [OF hex_upper_code d]
      by (simp only: char_eq_iff_code [of c])
  qed
  then show ?thesis
    unfolding recognised_def by (auto simp: Bex_def)
qed

lemma decode_char_None_iff: "decode_char ib c = None \<longleftrightarrow> \<not> recognised ib c"
proof -
  define n :: nat where "n = of_char c"
  show ?thesis
  proof (cases "48 \<le> n \<and> n \<le> 57")
    case True
    then have "decode_char ib c = (if n - 48 < to_underlying ib then Some (n - 48) else None)"
      by (simp add: decode_char_def n_def)
    moreover have "recognised ib c \<longleftrightarrow> n - 48 < to_underlying ib"
      unfolding recognised_iff n_def [symmetric] using True
      by (auto intro: exI [of _ "n - 48"])
    ultimately show ?thesis by simp
  next
    case digit: False
    show ?thesis
    proof (cases "97 \<le> n \<and> n \<le> 102")
      case True
      then have "decode_char ib c = (if n - 87 < to_underlying ib then Some (n - 87) else None)"
        by (auto simp add: decode_char_def n_def)
      moreover have "recognised ib c \<longleftrightarrow> n - 87 < to_underlying ib"
        unfolding recognised_iff n_def [symmetric] using True
        by (auto intro: exI [of _ "n - 87"])
      ultimately show ?thesis by simp
    next
      case lower: False
      show ?thesis
      proof (cases "65 \<le> n \<and> n \<le> 70")
        case True
        then have "decode_char ib c = (if n - 55 < to_underlying ib then Some (n - 55) else None)"
          by (auto simp add: decode_char_def n_def)
        moreover have "recognised ib c \<longleftrightarrow> n - 55 < to_underlying ib"
          unfolding recognised_iff n_def [symmetric] using True
          by (auto intro: exI [of _ "n - 55"])
        ultimately show ?thesis by simp
      next
        case False
        then have "decode_char ib c = None"
          using digit lower by (auto simp add: decode_char_def n_def)
        moreover have "\<not> recognised ib c"
          unfolding recognised_iff n_def [symmetric] using False digit lower to_underlying_le [of ib]
          by (auto split: if_splits)
        ultimately show ?thesis by simp
      qed
    qed
  qed
qed

lemma from_string_loop_None_iff:
  "from_string_loop p ib cs result pw = None \<longleftrightarrow> (\<exists>c \<in> set cs. decode_char ib c = None)"
  by (induction cs arbitrary: result pw) (auto split: option.splits)

subsection \<open>Conversion to a native integer\<close>





subsection \<open>Digits, \<open>set_digit\<close> and the most significant digit\<close>

lemma le_val_update:
  "i < length ds \<Longrightarrow> le_val B (ds[i := v]) + B ^ i * ds ! i = le_val B ds + B ^ i * v"
proof (induction ds arbitrary: i)
  case Nil
  then show ?case by simp
next
  case (Cons d ds)
  show ?case
  proof (cases i)
    case 0
    then show ?thesis by simp
  next
    case (Suc i')
    then have "i' < length ds" using Cons.prems by simp
    from Cons.IH [OF this]
    have "B * (le_val B (ds[i' := v]) + B ^ i' * ds ! i') = B * (le_val B ds + B ^ i' * v)"
      by simp
    then show ?thesis using Suc by (simp add: algebra_simps)
  qed
qed

lemma le_val_take_Suc:
  "i < length ds \<Longrightarrow> le_val B (take (Suc i) ds) = le_val B (take i ds) + B ^ i * ds ! i"
  by (simp add: take_Suc_conv_app_nth le_val_append)

lemma mod_power_drop: "n \<le> e \<Longrightarrow> (a + c * B ^ e) mod B ^ n = a mod B ^ n" for a :: nat
proof -
  assume "n \<le> e"
  then have "B ^ n dvd c * B ^ e" by (simp add: le_imp_power_dvd)
  then show ?thesis by (metis mod_add_right_eq dvd_imp_mod_0 add.right_neutral)
qed

lemma digit_rev_nth:
  "length x = num_digits p \<Longrightarrow> i < num_digits p \<Longrightarrow> digit p x i = rev x ! i"
  by (simp add: digit_def rev_nth)

lemma digit_lt_base: "number_ok p x \<Longrightarrow> digit p x i < base p"
  by (auto simp: digit_def number_ok_def base_def list_all_length less_Suc_eq_le)

lemma digit_number_zero: "digit p (number_zero p) q = 0"
  by (simp add: digit_def number_zero_def)

lemma digit_set_digit:
  "length w = num_digits p \<Longrightarrow>
   digit p (set_digit p w i v) q =
     (if q = i \<and> i < num_digits p then to_digit p v mod base p else digit p w q)"
  by (auto simp: digit_def set_digit_def nth_list_update)

lemma value_of_set_digit:
  assumes "length w = num_digits p" and "i < num_digits p"
  shows "value_of p (set_digit p w i v) + base p ^ i * digit p w i
       = value_of p w + base p ^ i * (to_digit p v mod base p)"
proof -
  let ?k = "num_digits p - 1 - i"
  have k: "?k < length w" using assms by simp
  have idx: "length w - ?k - 1 = i" using assms by simp
  have "rev (set_digit p w i v) = (rev w)[i := to_digit p v mod base p]"
    using assms rev_update [OF k, of "to_digit p v mod base p"] by (simp add: set_digit_def idx)
  moreover have "i < length (rev w)" using assms by simp
  ultimately show ?thesis
    using le_val_update [of i "rev w" "base p" "to_digit p v mod base p"] assms
    by (simp add: value_of_le_val digit_rev_nth)
qed

lemma to_digit_id: "params_ok p \<Longrightarrow> v < base p \<Longrightarrow> to_digit p v = v"
  by (simp add: params_ok_def base_def to_digit_def)

lemma msd_loop_take:
  "length x = n \<Longrightarrow>
   msd_loop x n \<le> n \<and> le_val B (take (msd_loop x n) (rev x)) = le_val B (rev x)"
proof (induction x arbitrary: n)
  case Nil
  then show ?case by simp
next
  case (Cons d ds)
  then obtain n' where n: "n = Suc n'" and len: "length ds = n'" by (cases n) auto
  show ?case
  proof (cases "d = 0")
    case True
    from Cons.IH [OF len] have le: "msd_loop ds n' \<le> n'"
      and v: "le_val B (take (msd_loop ds n') (rev ds)) = le_val B (rev ds)" by simp_all
    have "take (msd_loop ds n') (rev ds @ [d]) = take (msd_loop ds n') (rev ds)"
      using le len by simp
    then show ?thesis using True n le v by (simp add: le_val_append)
  next
    case False
    then show ?thesis using n len by simp
  qed
qed

lemma most_significant_digit_le:
  "length x = num_digits p \<Longrightarrow> most_significant_digit p x \<le> num_digits p"
  using msd_loop_take [of x "num_digits p" 0] by (simp add: most_significant_digit_def)

lemma le_val_take_most_significant_digit:
  "length x = num_digits p \<Longrightarrow>
   le_val (base p) (take (most_significant_digit p x) (rev x)) = value_of p x"
  using msd_loop_take [of x "num_digits p" "base p"]
  by (simp add: most_significant_digit_def value_of_le_val)

subsection \<open>The value of a product\<close>

text \<open>
  The inner loop of \<open>operator*\<close> keeps, modulo the capacity, the value of \<open>w\<close> plus the
  carry at its place equal to the value before the row plus the part of the row done so
  far; digits above the row are untouched.
\<close>

lemma mul_step_inv:
  fixes i j :: nat
  assumes p: "params_ok p" and x: "number_ok p x" and y: "number_ok p y"
    and w: "number_ok p w" and k: "k < base p"
  defines "r \<equiv> mul_step p x y j (w, k) i"
  shows "number_ok p (fst r)"
    and "snd r < base p"
    and "(value_of p (fst r) + snd r * base p ^ (Suc i + j)) mod base p ^ num_digits p
       = (value_of p w + k * base p ^ (i + j) + digit p x i * digit p y j * base p ^ (i + j))
           mod base p ^ num_digits p"
    and "\<forall>q. q \<noteq> i + j \<longrightarrow> digit p (fst r) q = digit p w q"
proof -
  let ?B = "base p"
  let ?K = "?B ^ num_digits p"
  define t where "t = digit p x i * digit p y j + digit p w (i + j) + k"
  have len: "length w = num_digits p" using w by (simp add: number_ok_def)
  have dx: "digit p x i < ?B" and dy: "digit p y j < ?B" and dw: "digit p w (i + j) < ?B"
    using x y w by (simp_all add: digit_lt_base)
  have r: "r = (set_digit p w (i + j) (t mod ?B), to_digit p (t div ?B))"
    by (simp add: r_def mul_step_def Let_def t_def)
  have "digit p x i * digit p y j \<le> (?B - 1) * (?B - 1)"
    using dx dy by (intro mult_mono) simp_all
  then have "t \<le> (?B - 1) * (?B - 1) + (?B - 1) + (?B - 1)"
    using dw k by (simp add: t_def)
  also have "\<dots> < ?B * ?B"
    by (simp add: base_def algebra_simps)
  finally have "t < ?B * ?B" .
  then have tdiv: "t div ?B < ?B"
    by (simp add: less_mult_imp_div_less)
  have tmod: "t mod ?B < ?B" by (simp add: base_pos)
  have k': "to_digit p (t div ?B) = t div ?B" using p tdiv by (rule to_digit_id)
  have stored: "to_digit p (t mod ?B) mod ?B = t mod ?B"
    using to_digit_id [OF p tmod] by simp
  show "number_ok p (fst r)" using w by (simp add: r set_digit_ok)
  show "snd r < ?B" using tdiv by (simp add: r k')
  show "\<forall>q. q \<noteq> i + j \<longrightarrow> digit p (fst r) q = digit p w q"
    using len by (simp add: r digit_set_digit)
  show "(value_of p (fst r) + snd r * ?B ^ (Suc i + j)) mod ?K
      = (value_of p w + k * ?B ^ (i + j) + digit p x i * digit p y j * ?B ^ (i + j)) mod ?K"
  proof (cases "i + j < num_digits p")
    case True
    have "value_of p (fst r) + ?B ^ (i + j) * digit p w (i + j)
        = value_of p w + ?B ^ (i + j) * (t mod ?B)"
      using value_of_set_digit [OF len True, of "t mod ?B"] by (simp add: r stored)
    then have "value_of p (fst r) + ?B ^ (i + j) * digit p w (i + j) + ?B ^ (i + j) * (?B * (t div ?B))
        = value_of p w + ?B ^ (i + j) * (t mod ?B) + ?B ^ (i + j) * (?B * (t div ?B))"
      by simp
    also have "\<dots> = value_of p w + ?B ^ (i + j) * (t mod ?B + ?B * (t div ?B))"
      by (simp only: distrib_left add.assoc)
    also have "t mod ?B + ?B * (t div ?B) = t" by simp
    finally have "value_of p (fst r) + ?B ^ (i + j) * digit p w (i + j) + ?B ^ (i + j) * (?B * (t div ?B))
        = value_of p w + ?B ^ (i + j) * (digit p x i * digit p y j + digit p w (i + j) + k)"
      by (simp only: t_def)
    then have "value_of p (fst r) + (t div ?B) * ?B ^ (Suc i + j)
        = value_of p w + k * ?B ^ (i + j) + digit p x i * digit p y j * ?B ^ (i + j)"
      by (simp add: algebra_simps)
    then show ?thesis by (simp add: r k')
  next
    case False
    then have n1: "num_digits p \<le> Suc i + j" and n2: "num_digits p \<le> i + j" by simp_all
    have fst: "fst r = w" using False by (simp add: r set_digit_def)
    have "(value_of p w + snd r * ?B ^ (Suc i + j)) mod ?K = value_of p w mod ?K"
      using n1 by (rule mod_power_drop)
    moreover have "(value_of p w + (k + digit p x i * digit p y j) * ?B ^ (i + j)) mod ?K
        = value_of p w mod ?K"
      using n2 by (rule mod_power_drop)
    ultimately show ?thesis by (simp add: fst algebra_simps)
  qed
qed

lemma mul_steps_inv:
  fixes j :: nat
  assumes p: "params_ok p" and x: "number_ok p x" and y: "number_ok p y"
    and w: "number_ok p w" and i: "i \<le> num_digits p"
  defines "wk \<equiv> foldl (mul_step p x y j) (w, 0) [0..<i]"
  shows "number_ok p (fst wk) \<and> snd wk < base p
    \<and> (value_of p (fst wk) + snd wk * base p ^ (i + j)) mod base p ^ num_digits p
       = (value_of p w + le_val (base p) (take i (rev x)) * digit p y j * base p ^ j)
           mod base p ^ num_digits p
    \<and> (\<forall>q\<ge>i + j. digit p (fst wk) q = digit p w q)"
  using i unfolding wk_def
proof (induction i)
  case 0
  show ?case using w by (simp add: base_pos)
next
  case (Suc i)
  let ?B = "base p"
  let ?K = "?B ^ num_digits p"
  define wk where "wk = foldl (mul_step p x y j) (w, 0) [0..<i]"
  define r where "r = mul_step p x y j (fst wk, snd wk) i"
  have i: "i < num_digits p" using Suc.prems by simp
  have ih: "number_ok p (fst wk)" "snd wk < ?B"
    "(value_of p (fst wk) + snd wk * ?B ^ (i + j)) mod ?K
       = (value_of p w + le_val ?B (take i (rev x)) * digit p y j * ?B ^ j) mod ?K"
    "\<forall>q\<ge>i + j. digit p (fst wk) q = digit p w q"
    using Suc.IH i by (simp_all add: wk_def)
  have fold: "foldl (mul_step p x y j) (w, 0) [0..<Suc i] = r"
    by (simp add: r_def wk_def)
  note st = mul_step_inv [OF p x y ih(1) ih(2), where i = i and j = j, folded r_def]
  have lenx: "length x = num_digits p" using x by (simp add: number_ok_def)
  have tk: "le_val ?B (take (Suc i) (rev x)) = le_val ?B (take i (rev x)) + ?B ^ i * digit p x i"
    using i lenx by (simp add: le_val_take_Suc digit_rev_nth)
  have "(value_of p (fst r) + snd r * ?B ^ (Suc i + j)) mod ?K
      = ((value_of p (fst wk) + snd wk * ?B ^ (i + j)) + digit p x i * digit p y j * ?B ^ (i + j)) mod ?K"
    using st(3) by simp
  also have "\<dots> = ((value_of p (fst wk) + snd wk * ?B ^ (i + j)) mod ?K
      + digit p x i * digit p y j * ?B ^ (i + j)) mod ?K"
    by (simp only: mod_add_left_eq)
  also have "\<dots> = ((value_of p w + le_val ?B (take i (rev x)) * digit p y j * ?B ^ j) mod ?K
      + digit p x i * digit p y j * ?B ^ (i + j)) mod ?K"
    by (simp only: ih(3))
  also have "\<dots> = ((value_of p w + le_val ?B (take i (rev x)) * digit p y j * ?B ^ j)
      + digit p x i * digit p y j * ?B ^ (i + j)) mod ?K"
    by (simp only: mod_add_left_eq)
  also have "(value_of p w + le_val ?B (take i (rev x)) * digit p y j * ?B ^ j)
      + digit p x i * digit p y j * ?B ^ (i + j)
      = value_of p w + le_val ?B (take (Suc i) (rev x)) * digit p y j * ?B ^ j"
    by (simp add: tk algebra_simps power_add)
  finally have val: "(value_of p (fst r) + snd r * ?B ^ (Suc i + j)) mod ?K
      = (value_of p w + le_val ?B (take (Suc i) (rev x)) * digit p y j * ?B ^ j) mod ?K" .
  have "\<forall>q\<ge>Suc i + j. digit p (fst r) q = digit p w q"
    using st(4) ih(4) by simp
  then show ?case using st(1) st(2) val unfolding fold by simp
qed

lemma mul_row_inv:
  assumes p: "params_ok p" and x: "number_ok p x" and y: "number_ok p y"
    and w: "number_ok p w"
    and z: "\<forall>q\<ge>j + most_significant_digit p x. digit p w q = 0"
  defines "row \<equiv> mul_row p x y (most_significant_digit p x) w j"
  shows "number_ok p row"
    and "value_of p row mod base p ^ num_digits p
       = (value_of p w + value_of p x * digit p y j * base p ^ j) mod base p ^ num_digits p"
    and "\<forall>q\<ge>Suc j + most_significant_digit p x. digit p row q = 0"
proof -
  let ?B = "base p"
  let ?K = "?B ^ num_digits p"
  let ?m = "most_significant_digit p x"
  define wk where "wk = foldl (mul_step p x y j) (w, 0) [0..<?m]"
  have lenx: "length x = num_digits p" using x by (simp add: number_ok_def)
  have m: "?m \<le> num_digits p" using lenx by (rule most_significant_digit_le)
  have inv: "number_ok p (fst wk)" "snd wk < ?B"
    "(value_of p (fst wk) + snd wk * ?B ^ (?m + j)) mod ?K
       = (value_of p w + value_of p x * digit p y j * ?B ^ j) mod ?K"
    "\<forall>q\<ge>?m + j. digit p (fst wk) q = digit p w q"
    using mul_steps_inv [OF p x y w m, where j = j] le_val_take_most_significant_digit [OF lenx]
    by (simp_all add: wk_def)
  have row: "row = set_digit p (fst wk) (j + ?m) (snd wk)"
    by (simp add: row_def mul_row_def Let_def wk_def)
  have len: "length (fst wk) = num_digits p" using inv(1) by (simp add: number_ok_def)
  have stored: "to_digit p (snd wk) mod ?B = snd wk"
    using to_digit_id [OF p inv(2)] inv(2) by simp
  show "number_ok p row" using inv(1) by (simp add: row set_digit_ok)
  show "\<forall>q\<ge>Suc j + ?m. digit p row q = 0"
    using inv(4) z len by (simp add: row digit_set_digit add.commute)
  show "value_of p row mod ?K = (value_of p w + value_of p x * digit p y j * ?B ^ j) mod ?K"
  proof (cases "j + ?m < num_digits p")
    case True
    have "digit p (fst wk) (j + ?m) = 0" using inv(4) z by (simp add: add.commute)
    then have "value_of p row = value_of p (fst wk) + ?B ^ (j + ?m) * snd wk"
      using value_of_set_digit [OF len True, of "snd wk"] by (simp add: row stored)
    then have "value_of p row = value_of p (fst wk) + snd wk * ?B ^ (?m + j)"
      by (simp add: algebra_simps)
    then show ?thesis using inv(3) by simp
  next
    case False
    then have "row = fst wk" by (simp add: row set_digit_def)
    moreover have "(value_of p (fst wk) + snd wk * ?B ^ (?m + j)) mod ?K = value_of p (fst wk) mod ?K"
      using False by (intro mod_power_drop) simp
    ultimately show ?thesis using inv(3) by simp
  qed
qed

lemma mul_rows_inv:
  assumes p: "params_ok p" and x: "number_ok p x" and y: "number_ok p y"
    and n: "n \<le> num_digits p"
  defines "w \<equiv> foldl (mul_row p x y (most_significant_digit p x)) (number_zero p) [0..<n]"
  shows "number_ok p w
    \<and> value_of p w mod base p ^ num_digits p
       = (value_of p x * le_val (base p) (take n (rev y))) mod base p ^ num_digits p
    \<and> (\<forall>q\<ge>n + most_significant_digit p x. digit p w q = 0)"
  using n unfolding w_def
proof (induction n)
  case 0
  show ?case
    by (simp add: number_zero_ok value_of_number_zero digit_number_zero)
next
  case (Suc n)
  let ?B = "base p"
  let ?K = "?B ^ num_digits p"
  let ?m = "most_significant_digit p x"
  define w where "w = foldl (mul_row p x y ?m) (number_zero p) [0..<n]"
  have n: "n < num_digits p" using Suc.prems by simp
  have ih: "number_ok p w"
    "value_of p w mod ?K = (value_of p x * le_val ?B (take n (rev y))) mod ?K"
    "\<forall>q\<ge>n + ?m. digit p w q = 0"
    using Suc.IH n by (simp_all add: w_def)
  have fold: "foldl (mul_row p x y ?m) (number_zero p) [0..<Suc n] = mul_row p x y ?m w n"
    by (simp add: w_def)
  note row = mul_row_inv [OF p x y ih(1) ih(3)]
  have leny: "length y = num_digits p" using y by (simp add: number_ok_def)
  have tk: "le_val ?B (take (Suc n) (rev y)) = le_val ?B (take n (rev y)) + ?B ^ n * digit p y n"
    using n leny by (simp add: le_val_take_Suc digit_rev_nth)
  have "value_of p (mul_row p x y ?m w n) mod ?K
      = (value_of p w + value_of p x * digit p y n * ?B ^ n) mod ?K"
    by (rule row(2))
  also have "\<dots> = (value_of p w mod ?K + value_of p x * digit p y n * ?B ^ n) mod ?K"
    by (simp only: mod_add_left_eq)
  also have "\<dots> = ((value_of p x * le_val ?B (take n (rev y))) mod ?K
      + value_of p x * digit p y n * ?B ^ n) mod ?K"
    by (simp only: ih(2))
  also have "\<dots> = (value_of p x * le_val ?B (take n (rev y))
      + value_of p x * digit p y n * ?B ^ n) mod ?K"
    by (simp only: mod_add_left_eq)
  also have "value_of p x * le_val ?B (take n (rev y)) + value_of p x * digit p y n * ?B ^ n
      = value_of p x * le_val ?B (take (Suc n) (rev y))"
    by (simp add: tk algebra_simps)
  finally have val: "value_of p (mul_row p x y ?m w n) mod ?K
      = (value_of p x * le_val ?B (take (Suc n) (rev y))) mod ?K" .
  show ?case using row(1) row(3) val unfolding fold by simp
qed

lemma value_of_number_mul:
  assumes p: "params_ok p" and x: "number_ok p x" and y: "number_ok p y"
  shows "value_of p (number_mul p x y) = (value_of p x * value_of p y) mod base p ^ num_digits p"
proof -
  let ?K = "base p ^ num_digits p"
  have leny: "length y = num_digits p" using y by (simp add: number_ok_def)
  have n: "most_significant_digit p y \<le> num_digits p" using leny by (rule most_significant_digit_le)
  have "value_of p (number_mul p x y) mod ?K = (value_of p x * value_of p y) mod ?K"
    using mul_rows_inv [OF p x y n] le_val_take_most_significant_digit [OF leny]
    by (simp add: number_mul_def Let_def)
  moreover have "value_of p (number_mul p x y) < ?K"
    using number_mul_ok by (rule value_of_bound)
  ultimately show ?thesis by simp
qed

subsection \<open>The division returns\<close>

text \<open>
  With a base below \<open>2 ^ 32\<close> neither division of \<open>operator/\<close> is by zero: the divisor
  of the normalisation factor does not wrap, and the normalised denominator is not zero,
  so its leading digit is not zero.
\<close>

lemma big_simps:
  "base (big p) = base p" "num_digits (big p) = Suc (num_digits p)" "digit_max (big p) = digit_max p"
  "digit_bits (big p) = digit_bits p"
  by (simp_all add: big_def base_def)

lemma params_ok_big: "params_ok p \<Longrightarrow> params_ok (big p)"
  by (simp add: params_ok_def big_def)

lemma set_digit_length: "length (set_digit p w i v) = length w"
  by (simp add: set_digit_def)

lemma widen_digits:
  assumes p: "params_ok p" and x: "number_ok p x" and k: "k \<le> Suc (num_digits p)"
  defines "w \<equiv> foldl (\<lambda>r i. set_digit (big p) r i (digit p x i)) (number_zero (big p)) [0..<k]"
  shows "length w = Suc (num_digits p) \<and> (\<forall>i<k. digit (big p) w i = digit p x i)
       \<and> (\<forall>i\<ge>k. digit (big p) w i = 0)"
  using k unfolding w_def
proof (induction k)
  case 0
  have "length (number_zero (big p)) = Suc (num_digits p)"
    by (simp add: number_zero_def big_simps)
  then show ?case by (simp add: digit_number_zero)
next
  case (Suc k)
  define w where "w = foldl (\<lambda>r i. set_digit (big p) r i (digit p x i)) (number_zero (big p)) [0..<k]"
  have ih: "length w = Suc (num_digits p)" "\<forall>i<k. digit (big p) w i = digit p x i"
    "\<forall>i\<ge>k. digit (big p) w i = 0"
    using Suc by (simp_all add: w_def)
  have len: "length w = num_digits (big p)" using ih(1) by (simp add: big_simps)
  have dx: "digit p x k < base (big p)" using x by (simp add: digit_lt_base big_simps)
  have stored: "to_digit (big p) (digit p x k) mod base (big p) = digit p x k"
    using to_digit_id [OF params_ok_big [OF p] dx] dx by simp
  have fold: "foldl (\<lambda>r i. set_digit (big p) r i (digit p x i)) (number_zero (big p)) [0..<Suc k]
      = set_digit (big p) w k (digit p x k)"
    by (simp add: w_def)
  have k: "k < num_digits (big p)" using Suc.prems by (simp add: big_simps)
  show ?case
    unfolding fold using ih k
    by (auto simp: digit_set_digit [OF len] stored set_digit_length less_Suc_eq)
qed

lemma widen_eq: 
  assumes p: "params_ok p" and x: "number_ok p x"
  shows "widen (big p) p x = 0 # x"
proof (rule nth_equalityI)
  let ?w = "widen (big p) p x"
  have lenx: "length x = num_digits p" using x by (simp add: number_ok_def)
  from widen_digits [OF p x, of "Suc (num_digits p)"]
  have len: "length ?w = Suc (num_digits p)"
    and dig: "\<forall>i<Suc (num_digits p). digit (big p) ?w i = digit p x i"
    by (simp_all add: widen_def big_simps)
  show "length ?w = length (0 # x)" using len lenx by simp
  fix i assume "i < length ?w"
  then have i: "i < Suc (num_digits p)" using len by simp
  define j where "j = num_digits p - i"
  have j: "j < Suc (num_digits p)" and ij: "num_digits p - j = i" using i by (simp_all add: j_def)
  have "digit (big p) ?w j = digit p x j" using dig j by simp
  moreover have "digit (big p) ?w j = ?w ! i"
    using j ij by (simp add: digit_def big_simps)
  moreover have "digit p x j = (0 # x) ! i"
  proof (cases i)
    case 0
    then have "j = num_digits p" by (simp add: j_def)
    then show ?thesis using 0 by (simp add: digit_def)
  next
    case (Suc i')
    then have "j < num_digits p" and "num_digits p - 1 - j = i'" using i by (simp_all add: j_def)
    then show ?thesis using Suc by (simp add: digit_def)
  qed
  ultimately show "?w ! i = (0 # x) ! i" by simp
qed

lemma widen_ok_value:
  assumes p: "params_ok p" and x: "number_ok p x"
  shows "number_ok (big p) (widen (big p) p x)"
    and "value_of (big p) (widen (big p) p x) = value_of p x"
  using x by (simp_all add: widen_eq [OF p x] number_ok_def value_of_def big_simps)

lemma msd_loop_digit:
  "length x = n \<Longrightarrow> le_val B (rev x) \<noteq> 0 \<Longrightarrow>
   0 < msd_loop x n \<and> msd_loop x n \<le> n \<and> x ! (n - msd_loop x n) \<noteq> 0"
proof (induction x arbitrary: n)
  case Nil
  then show ?case by simp
next
  case (Cons d ds)
  then obtain n' where n: "n = Suc n'" and len: "length ds = n'" by (cases n) auto
  show ?case
  proof (cases "d = 0")
    case True
    then have "le_val B (rev ds) \<noteq> 0" using Cons.prems(2) by (simp add: le_val_append)
    from Cons.IH [OF len this] True show ?thesis
      using n by (auto simp: Suc_diff_le)
  next
    case False
    then show ?thesis using n by simp
  qed
qed

lemma most_significant_digit_nonzero:
  assumes "length x = num_digits p" and "value_of p x \<noteq> 0"
  shows "0 < most_significant_digit p x"
    and "digit_at p x (int (most_significant_digit p x) - 1) \<noteq> 0"
proof -
  let ?m = "most_significant_digit p x"
  from msd_loop_digit [OF assms(1), of "base p"] assms(2)
  have m: "0 < ?m" "?m \<le> num_digits p" "x ! (num_digits p - ?m) \<noteq> 0"
    by (simp_all add: most_significant_digit_def value_of_le_val)
  show "0 < ?m" by (rule m(1))
  have "nat (int ?m - 1) = ?m - 1" by simp
  moreover have "num_digits p - 1 - (?m - 1) = num_digits p - ?m" using m(1) by simp
  ultimately show "digit_at p x (int ?m - 1) \<noteq> 0"
    using m by (simp add: digit_at_def digit_def)
qed

lemma div_loop_returns:
  "digit_at (big p) den (int n - 1) \<noteq> 0 \<Longrightarrow> \<exists>st'. div_loop p den n st js = Inr st'"
proof (induction js arbitrary: st)
  case Nil
  show ?case by simp
next
  case (Cons j js)
  from Cons.prems obtain st1 where "div_step p den n st j = Inr st1"
    by (simp add: div_step_def Let_def)
  with Cons.IH [OF Cons.prems, of st1] show ?case by simp
qed


lemma value_of_eq_0_iff: "number_ok p x \<Longrightarrow> value_of p x = 0 \<longleftrightarrow> x = number_zero p"
  using value_of_inject [of p x "number_zero p"]
  by (auto simp: number_zero_ok value_of_number_zero)

lemma number_div_returns:
  assumes p: "params_ok p" and a: "number_ok p a" and b: "number_ok p b"
    and small: "base p < 2 ^ 32"
  shows "\<exists>q. number_div p a b = Inr q"
proof (cases "a = number_of p 0 \<or> b = number_of p 0 \<or> number_cmp b a = Greater")
  case True
  then show ?thesis by (simp add: number_div_def)
next
  case c1: False
  show ?thesis
  proof (cases "b = a")
    case True
    then show ?thesis using c1 by (simp add: number_div_def)
  next
    case c2: False
    show ?thesis
    proof (cases "b = number_of p 1")
      case True
      then show ?thesis using c1 c2 by (simp add: number_div_def)
    next
      case c3: False
      let ?bp = "big p"
      let ?B = "base p"
      let ?m = "most_significant_digit p b"
      let ?dv = "to_unsigned (digit_at p b (int ?m - 1) + 1)"
      let ?nv = "?B div ?dv"
      let ?norm = "number_of ?bp ?nv"
      let ?den = "number_mul ?bp (widen ?bp p b) ?norm"
      let ?num = "number_mul ?bp (widen ?bp p a) ?norm"
      let ?n = "most_significant_digit ?bp ?den"
      let ?js = "if most_significant_digit ?bp ?num < ?n then []
                 else rev [0..<most_significant_digit ?bp ?num - ?n + 1]"
      have lenb: "length b = num_digits p" using b by (simp add: number_ok_def)
      have vb: "value_of p b \<noteq> 0"
        using c1 b by (simp add: value_of_eq_0_iff number_of_zero)
      have lead: "digit_at p b (int ?m - 1) \<noteq> 0"
        using most_significant_digit_nonzero [OF lenb vb] by simp
      have "digit_at p b (int ?m - 1) < ?B"
        using b by (simp add: digit_at_def digit_lt_base base_pos)
      then have dv_le: "digit_at p b (int ?m - 1) + 1 \<le> ?B" by simp
      then have "digit_at p b (int ?m - 1) + 1 < 2 ^ 32" using small by linarith
      then have dv: "?dv = digit_at p b (int ?m - 1) + 1"
        unfolding to_unsigned_def by (rule mod_less)
      have dv0: "?dv \<noteq> 0" unfolding dv by simp
      have dv2: "2 \<le> ?dv" unfolding dv using lead by simp
      have dvB: "?dv \<le> ?B" unfolding dv by (rule dv_le)
      have nv1: "1 \<le> ?nv" using dvB dv0 by (simp add: div_greater_zero_iff Suc_le_eq)
      have Bge2: "2 \<le> ?B" using p by (simp add: params_ok_def base_def)
      have nvlt: "?nv < ?B"
      proof -
        have "?B div ?dv \<le> ?B div 2" using dv2 by (intro div_le_mono2) simp_all
        also have "\<dots> < ?B" using Bge2 by simp
        finally show ?thesis .
      qed
      have "?B * 1 \<le> ?B * ?B ^ num_digits p"
        by (intro mult_le_mono2) (simp add: base_pos Suc_leI)
      then have BK: "?B \<le> ?B ^ Suc (num_digits p)" by simp
      from nvlt BK have "?nv < ?B ^ Suc (num_digits p)" by (rule less_le_trans)
      then have vnorm: "value_of ?bp ?norm = ?nv"
        by (simp only: value_of_number_of big_simps mod_less)
      have "value_of p b * ?nv < ?B ^ num_digits p * ?B"
        using value_of_bound [OF b] nvlt nv1 by (intro mult_strict_mono) simp_all
      then have lt: "value_of p b * ?nv < ?B ^ Suc (num_digits p)" by (simp add: mult.commute)
      have "value_of ?bp ?den = (value_of ?bp (widen ?bp p b) * value_of ?bp ?norm)
          mod base ?bp ^ num_digits ?bp"
        using params_ok_big [OF p] widen_ok_value(1) [OF p b] number_of_ok
        by (rule value_of_number_mul)
      also have "\<dots> = (value_of p b * ?nv) mod ?B ^ Suc (num_digits p)"
        by (simp only: widen_ok_value(2) [OF p b] vnorm big_simps)
      also have "\<dots> = value_of p b * ?nv" using lt by (rule mod_less)
      finally have vden: "value_of ?bp ?den = value_of p b * ?nv" .
      have "value_of ?bp ?den \<noteq> 0" unfolding vden using vb nv1 by simp
      moreover have "length ?den = num_digits ?bp"
        using number_mul_ok [of ?bp] by (simp add: number_ok_def)
      ultimately have d1: "digit_at ?bp ?den (int ?n - 1) \<noteq> 0"
        by (intro most_significant_digit_nonzero(2))
      obtain st where st: "div_loop p ?den ?n (?num, number_zero p) ?js = Inr st"
        using div_loop_returns [OF d1] by blast
      have "number_div p a b =
          (case div_loop p ?den ?n (?num, number_zero p) ?js of
             Inl e \<Rightarrow> Inl e | Inr st \<Rightarrow> Inr (snd st))"
        unfolding number_div_def Let_def by (simp only: c1 c2 c3 dv0 if_False)
      then show ?thesis by (simp only: st sum.case) blast
    qed
  qed
qed

section \<open>Properties of the specification\<close>

subsection \<open>Division and modulus by zero\<close>

text \<open>
  Claim C1 says that for every unsigned number \<open>a\<close> both \<open>a / 0\<close> and \<open>a % 0\<close> are the
  zero value. The quotient is zero, by the first special case of \<open>operator/\<close>. The
  modulus is computed as \<open>a - (a / 0) * 0\<close>, which is \<open>a\<close> itself: for \<open>a = 5\<close> in
  \<open>number<std::uint8_t, 1>\<close> the modulus by zero is 5, not zero.
\<close>

theorem modulus_by_zero_counterexample:
  "number_ok p8 [5] \<and> number_mod p8 [5] (number_of p8 0) = Inr [5]
   \<and> number_mod p8 [5] (number_of p8 0) \<noteq> Inr (number_of p8 0)"
  by code_simp

text \<open>
  Claim C1 as amended: for every unsigned number \<open>a\<close>, \<open>a / 0\<close> is the zero value and
  \<open>a % 0\<close> is \<open>a\<close>; no fault is signalled.
\<close>

theorem division_by_zero:
  assumes "number_ok p a"
  shows "number_div p a (number_of p 0) = Inr (number_of p 0)
       \<and> number_mod p a (number_of p 0) = Inr a"
proof
  show d: "number_div p a (number_of p 0) = Inr (number_of p 0)"
    by (simp add: number_div_def)
  have "number_div p a (number_zero p) = Inr (number_zero p)"
    using d by (simp add: number_of_zero)
  then show "number_mod p a (number_of p 0) = Inr a"
    using assms by (simp add: number_mod_def number_of_zero number_mul_zero_left number_sub_zero)
qed

theorem division_by_zero_witness:
  "number_ok p8 [5] \<and> number_div p8 [5] (number_of p8 0) = Inr (number_of p8 0)
   \<and> number_mod p8 [5] (number_of p8 0) = Inr [5]"
proof -
  have a: "number_ok p8 [5]" by code_simp
  show ?thesis using a division_by_zero [OF a] by simp
qed

subsection \<open>The Euclidean identity\<close>

text \<open>
  The modulus is \<open>a - (a / b) * b\<close>, so the identity \<open>(a / b) * b + (a % b) == a\<close> asks
  that adding back what was subtracted restores \<open>a\<close>. It does whenever the subtraction
  propagates its borrows, which it does in every base below \<open>2 ^ 32\<close>, whatever the
  quotient is; in these bases the division returns for all operands.
\<close>

lemma euclidean_identity_small_base:
  assumes "params_ok p" and "number_ok p a" and "number_ok p b" and "base p < 2 ^ 32"
  shows "\<exists>q r. number_div p a b = Inr q \<and> number_mod p a b = Inr r
           \<and> number_add p (number_mul p q b) r = a"
proof -
  from number_div_returns [OF assms] obtain q where q: "number_div p a b = Inr q" ..
  have "borrow_safe (number_mul p q b)"
    using number_mul_ok assms(4) by (rule borrow_safe_small_base)
  with number_mul_ok assms(2)
  have "number_add p (number_mul p q b) (number_sub p a (number_mul p q b)) = a"
    by (rule number_add_sub_cancel)
  then show ?thesis by (simp add: number_mod_def q)
qed

text \<open>
  Claim C2 says that for all unsigned numbers \<open>a\<close> and \<open>b\<close> with \<open>b\<close> nonzero,
  \<open>(a / b) * b + (a % b) == a\<close> in the fixed-width type. In
  \<open>number<std::uint32_t, 3>\<close>, whose base is \<open>2 ^ 32\<close>, take \<open>a\<close> with the digits
  \<open>2, 0, 0\<close> and \<open>b\<close> with the digits \<open>1, 0xFFFFFFFF, 1\<close>. The quotient is one. In the
  subtraction \<open>a - b\<close> the lowest digit borrows, and in the middle digit the sum of the
  borrow and \<open>0xFFFFFFFF\<close> wraps to zero, so the borrow is lost: the modulus has the
  digits \<open>1, 0, 0xFFFFFFFF\<close> instead of \<open>0, 0, 0xFFFFFFFF\<close>, and the sum
  \<open>(a / b) * b + (a % b)\<close> has the digits \<open>3, 0, 0\<close>.
\<close>

theorem euclidean_identity_lost_borrow:
  "params_ok p32 \<and> number_ok p32 [2, 0, 0] \<and> number_ok p32 [1, 4294967295, 1]
   \<and> [1, 4294967295, 1] \<noteq> number_of p32 0
   \<and> number_div p32 [2, 0, 0] [1, 4294967295, 1] = Inr [0, 0, 1]
   \<and> number_mod p32 [2, 0, 0] [1, 4294967295, 1] = Inr [1, 0, 4294967295]
   \<and> number_add p32 (number_mul p32 [0, 0, 1] [1, 4294967295, 1]) [1, 0, 4294967295] = [3, 0, 0]"
  by code_simp

text \<open>
  In the same type the division itself fails when the leading digit of the divisor is
  \<open>0xFFFFFFFF\<close>: the divisor of the normalisation factor wraps to zero.
\<close>

lemma number_div_fails:
  "number_ok p32 [0, 1, 0] \<and> number_ok p32 [0, 0, 4294967295]
   \<and> number_div p32 [0, 1, 0] [0, 0, 4294967295] = Inl Division_by_zero"
  by code_simp

subsection \<open>The zero exponent\<close>

text \<open>
  Claim C10: for every unsigned number \<open>a\<close>, zero included, \<open>a.pow(zero)\<close> returns one;
  in particular zero raised to the zero exponent is one, not zero. The loop of \<open>pow\<close>
  is not entered and the initial \<open>result(1U)\<close> is returned, whose value is one.
\<close>

theorem pow_zero_exponent:
  assumes "params_ok p"
  shows "number_pow p a (number_of p 0) = Some (Inr (number_of p 1))
       \<and> value_of p (number_of p 1) = 1"
proof
  show "number_pow p a (number_of p 0) = Some (Inr (number_of p 1))"
    by (simp add: number_pow_def pow_loop.simps)
  have "1 < base p ^ num_digits p"
    using assms one_less_power [of "base p" "num_digits p"] by (simp add: params_ok_def base_def)
  then show "value_of p (number_of p 1) = 1"
    by (simp only: value_of_number_of mod_less)
qed

theorem pow_zero_exponent_witness:
  "params_ok p_dec3
   \<and> number_pow p_dec3 (number_of p_dec3 0) (number_of p_dec3 0) = Some (Inr [0, 0, 1])
   \<and> value_of p_dec3 [0, 0, 1] = 1"
proof -
  have ok: "params_ok p_dec3" by code_simp
  have one: "number_of p_dec3 1 = [0, 0, 1]" by code_simp
  show ?thesis using ok pow_zero_exponent [OF ok, of "number_of p_dec3 0", unfolded one] by simp
qed

subsection \<open>Rejected input of \<open>from_string\<close>\<close>

text \<open>
  Claim C8: for every input string and base, \<open>from_string\<close> returns an absent result
  if and only if some character of the input does not decode to a digit value strictly
  below the base, where only \<open>0-9\<close>, \<open>a-f\<close> and \<open>A-F\<close> are recognised; in particular the
  empty string parses to zero, and a string with a rejected character never yields the
  parse of a part of it.
\<close>

theorem from_string_absent_iff:
  "(from_string p s ib = None \<longleftrightarrow> (\<exists>c \<in> set s. \<not> recognised ib c))
   \<and> from_string p [] ib = Some (number_zero p)"
  by (simp add: from_string_def from_string_loop_None_iff decode_char_None_iff)

theorem from_string_absent_iff_witness:
  "from_string p8 ''10g'' hexadecimal = None \<and> \<not> recognised hexadecimal CHR ''g''
   \<and> from_string p8 ''1F'' hexadecimal = Some [31]
   \<and> from_string p8 [] hexadecimal = Some [0]"
proof -
  have g: "\<not> recognised hexadecimal CHR ''g''" by code_simp
  have ok: "from_string p8 ''1F'' hexadecimal = Some [31]" by code_simp
  have z: "number_zero p8 = [0]" by code_simp
  show ?thesis
    using from_string_absent_iff [of p8 "''10g''" hexadecimal] g ok z by auto
qed

subsection \<open>Comparison of signed values\<close>

text \<open>
  Claim C3 says that of two negative values the one with the larger magnitude compares as
  the smaller. The defaulted comparison of \<open>integer\<close> compares the sign flags and then
  the magnitudes in the same sense for either sign: minus five compares as greater than
  minus three.
\<close>

theorem integer_cmp_negative_pair:
  "integer_of p8 32 (- 5) = \<lparr>positive = False, magnitude = [5]\<rparr>
   \<and> integer_of p8 32 (- 3) = \<lparr>positive = False, magnitude = [3]\<rparr>
   \<and> integer_cmp (integer_of p8 32 (- 5)) (integer_of p8 32 (- 3)) = Greater"
  by code_simp

subsection \<open>The canonical zero of signed values\<close>

text \<open>
  Unary plus, negation, multiplication, division and modulus check for a zero magnitude
  (or force the positive sign) before they build their result.
\<close>

lemma canonical_zero_checked:
  "canonical_zero p (integer_default p)"
  "canonical_zero p (integer_plus a)"
  "canonical_zero p a \<Longrightarrow> canonical_zero p (integer_neg p a)"
  "canonical_zero p (integer_mul p a b)"
  "integer_div p a b = Inr r \<Longrightarrow> canonical_zero p r"
  "integer_mod p a b = Inr r \<Longrightarrow> canonical_zero p r"
  by (auto simp: canonical_zero_def integer_default_def integer_plus_def integer_neg_def
      integer_mul_def integer_div_def integer_mod_def Let_def split: sum.splits)

text \<open>
  Claim C9 says that no public operation yields a negative zero. The branch of
  \<open>operator+\<close> for equal signs builds \<open>integer(positive_, magnitude_ + rhs.magnitude_)\<close>
  without that check: in \<open>integer<number<std::uint8_t, 1>>\<close> the sum of minus 128 and
  minus 128 has the magnitudes add up to the capacity 256, so it is the negative sign on
  a zero magnitude. The construction from a negative native value whose magnitude is a
  multiple of the capacity gives a negative zero too (minus 1000 with three decimal
  digits).
\<close>

theorem negative_zero_reachable:
  "integer_of p8 32 (- 128) = \<lparr>positive = False, magnitude = [128]\<rparr>
   \<and> integer_add p8 (integer_of p8 32 (- 128)) (integer_of p8 32 (- 128))
       = \<lparr>positive = False, magnitude = number_of p8 0\<rparr>
   \<and> integer_of p_dec3 32 (- 1000) = \<lparr>positive = False, magnitude = number_of p_dec3 0\<rparr>"
  by code_simp

subsection \<open>Exponentiation in an odd base\<close>

text \<open>
  Claim C4 says that \<open>pow\<close> computes the power modulo the capacity in every base,
  odd bases included, the tested bit agreeing with the exponent modulo two. The loop
  tests the parity of the least significant digit, which is the parity of the exponent
  only in an even base. In base 3 with two digits, \<open>2.pow(3)\<close> returns 4 and not 8:
  the exponent 3 has the digits \<open>1, 0\<close>, its low digit is even, and its value modulo
  two is one.
\<close>

theorem pow_odd_base:
  "params_ok p_tern2
   \<and> number_pow p_tern2 (number_of p_tern2 2) (number_of p_tern2 3)
       = Some (Inr (number_of p_tern2 4))
   \<and> number_of p_tern2 (2 ^ 3 mod base p_tern2 ^ num_digits p_tern2) = number_of p_tern2 8
   \<and> number_of p_tern2 4 \<noteq> number_of p_tern2 8
   \<and> even (digit p_tern2 (number_of p_tern2 3) 0)
   \<and> number_mod p_tern2 (number_of p_tern2 3) (number_of p_tern2 2)
       = Inr (number_of p_tern2 1)"
  by code_simp

subsection \<open>The round trip through text\<close>

text \<open>
  In \<open>number<std::uint8_t, 1, 2>\<close> the decimal base is \<open>number(10U)\<close>, which is the
  digit 1 because ten is reduced modulo the capacity 3. For \<open>n = 1\<close> the loop of
  \<open>to_string\<close> computes \<open>n / 1\<close>, which is \<open>n\<close> again, so it finds itself in the same
  state after each pass: no run of the loop from that state returns.
\<close>

lemma to_string_loop_tern1:
  assumes "to_string_loop p n b s = Some r"
  shows "\<not> (p = p_tern1 \<and> n = [1] \<and> b = [1])"
proof (rule to_string_loop.raw_induct
    [where P = "\<lambda>p n b s r. \<not> (p = p_tern1 \<and> n = [1] \<and> b = [1])", OF _ assms], goal_cases)
  case (1 loop p n b s r)
  show ?case
  proof
    assume eq: "p = p_tern1 \<and> n = [1] \<and> b = [1]"
    have nz: "[1] \<noteq> number_of p_tern1 0" by code_simp
    have m: "number_mod p_tern1 [1] [1] = Inr [0]" by code_simp
    have q: "number_div p_tern1 [1] [1] = Inr [1]" by code_simp
    from eq have p: "p = p_tern1" and n: "n = [1]" and b: "b = [1]" by simp_all
    have "loop p_tern1 [1] [1] (s @ [digit_char (to_native 32 p_tern1 [0])]) = Some r"
      using 1(2) unfolding p n b
      by (simp only: nz m q sum.case if_True not_False_eq_True)
    from 1(1) [OF this] show False by simp
  qed
qed

text \<open>
  Claim C7 says that \<open>from_string(to_string(a, base), base) == a\<close> for every nonzero \<open>a\<close>
  and every base of the four. For the nonzero value one of \<open>number<std::uint8_t, 1, 2>\<close>
  and the decimal base, \<open>to_string\<close> does not return, so there is no string to parse.
\<close>

theorem to_string_diverges:
  "params_ok p_tern1 \<and> number_ok p_tern1 (number_of p_tern1 1)
   \<and> number_of p_tern1 1 \<noteq> number_of p_tern1 0
   \<and> to_string p_tern1 (number_of p_tern1 1) decimal = None
   \<and> (case to_string p_tern1 (number_of p_tern1 1) decimal of
         Some (Inr s) \<Rightarrow> from_string p_tern1 s decimal
       | _ \<Rightarrow> None) \<noteq> Some (number_of p_tern1 1)"
proof -
  have pre: "params_ok p_tern1 \<and> number_ok p_tern1 (number_of p_tern1 1)
      \<and> number_of p_tern1 1 \<noteq> number_of p_tern1 0"
    by code_simp
  have n: "number_of p_tern1 1 = [1]" by code_simp
  have b: "number_of p_tern1 (to_underlying decimal) = [1]" by code_simp
  have "to_string_loop p_tern1 [1] [1] [] = None"
    using to_string_loop_tern1 [of p_tern1 "[1]" "[1]" "[]"]
    by (cases "to_string_loop p_tern1 [1] [1] []") auto
  then have "to_string p_tern1 (number_of p_tern1 1) decimal = None"
    unfolding to_string_def n b by simp
  with pre show ?thesis by simp
qed

subsection \<open>Conversion to a native unsigned integer\<close>




subsection \<open>Agreement with native arithmetic\<close>




end
